theory Spec2Isabelle
  imports Main "HOL-Library.Word"
begin

unbundle bit_operations_syntax

section \<open>The adaptive bit-packed integer array of adaptiva.c\<close>

text \<open>
  The C file keeps one container in five globals. They become the fields of a record that
  every operation takes and returns. A C \<open>int\<close> or \<open>unsigned int\<close> that carries a
  stored value or a bit pattern is a \<open>32 word\<close>: \<open>+\<close> and \<open>-\<close> wrap, \<open>push_bit\<close> is
  \<open><<\<close>, \<open>drop_bit\<close> is \<open>>>\<close> on \<open>unsigned int\<close> and \<open>signed_drop_bit\<close> is \<open>>>\<close> on
  \<open>int\<close> (the arithmetic shift every mainstream compiler emits), \<open>sint\<close> reads the word
  as the C \<open>int\<close> it is.

  The bookkeeping integers \<open>entropy\<close>, \<open>size\<close>, \<open>allocated\<close> and the indices are
  natural numbers. For indices below \<open>2 ^ 28\<close> none of them leaves the range of a 32-bit
  \<open>int\<close> (lemma \<open>well_formed_insert_a\<close>), and the natural numbers are then the values the
  program holds (lemma \<open>grow_int_exact\<close>). Beyond that range they are not: \<open>c_new_size\<close>,
  \<open>c_new_allocated\<close> and \<open>c_size\<close> below are the assignments of the growth branch with
  the wrap-around of C written out.

  The heap block behind \<open>buffer\<close> is the list of its words; \<open>allocated\<close> is kept beside it
  as the program does. Reading or writing a word outside the block is undefined in C;
  here \<open>xs ! j\<close> is then unspecified and \<open>xs[j := v]\<close> does nothing, and the theorems
  on memory safety show that the program stays inside the block.
\<close>

definition BITS_IN_INT :: nat where
  "BITS_IN_INT = 32"

definition VALS_IN_INT :: "nat \<Rightarrow> nat" where
  "VALS_IN_INT ent = BITS_IN_INT div ent"

record adaptiva =
  entropy :: nat
  buffer :: "32 word list"
  size_a :: nat
  allocated :: nat
  signed_values :: "32 word"

text \<open>
  \<open>init\<close> (lines 18-24). \<open>malloc\<close> does not clear the block it returns, so the content of
  the one word is whatever the allocator hands out: the parameter \<open>w\<close>.
\<close>

definition init :: "32 word \<Rightarrow> adaptiva" where
  "init w = \<lparr> entropy = 1, buffer = [w], size_a = BITS_IN_INT, allocated = 4,
              signed_values = 0 \<rparr>"

text \<open>
  \<open>_get\<close> (lines 31-43); the global \<open>signed_values\<close> it reads is the parameter \<open>sv\<close>.
\<close>

definition us_get :: "32 word list \<Rightarrow> nat \<Rightarrow> nat \<Rightarrow> 32 word \<Rightarrow> 32 word" where
  "us_get buf index ent sv =
     (let j = index div VALS_IN_INT ent;
          off = index mod VALS_IN_INT ent;
          mask = push_bit ent 1 - 1;
          v = buf ! j;
          v = signed_drop_bit (off * ent) v;
          v = v AND mask;
          sign_mask = push_bit (ent - 1) sv
      in (v XOR sign_mask) - sign_mask)"

text \<open>\<open>_put\<close> (lines 45-53).\<close>

definition us_put :: "32 word list \<Rightarrow> nat \<Rightarrow> 32 word \<Rightarrow> nat \<Rightarrow> 32 word list" where
  "us_put buf index val ent =
     (let j = index div VALS_IN_INT ent;
          off = index mod VALS_IN_INT ent;
          mask = push_bit ent 1 - 1;
          v = buf ! j;
          v = v AND NOT (push_bit (ent * off) mask);
          v = v OR push_bit (ent * off) val
      in buf[j := v])"

text \<open>
  \<open>__builtin_clz\<close>: the number of zero bits above the highest set bit of a 32-bit word,
  counted from bit 31 downwards. (The builtin is undefined at 0; the program only calls
  it on a word whose bit 0 is set.)
\<close>

fun clz_from :: "nat \<Rightarrow> 32 word \<Rightarrow> nat" where
  "clz_from 0 w = 0"
| "clz_from (Suc n) w = (if bit w n then 0 else Suc (clz_from n w))"

definition clz :: "32 word \<Rightarrow> nat" where
  "clz w = clz_from 32 w"

text \<open>
  The width selection of \<open>insert\<close> (lines 57-75), in the three steps of the source:
  the width of the magnitude (lines 59-60), the sign bit of a negative value (lines 62-63),
  the cap (lines 70-71); and the flag \<open>sign_switch\<close> (lines 64-66 and 72-74).
\<close>

definition abs_entropy :: "32 word \<Rightarrow> nat" where
  "abs_entropy val =
     (let abs_mask = signed_drop_bit (BITS_IN_INT - 1) val
      in BITS_IN_INT - clz (((val + abs_mask) XOR abs_mask) OR 1))"

definition signed_entropy :: "32 word \<Rightarrow> nat" where
  "signed_entropy val = (if val <s 0 then abs_entropy val + 1 else abs_entropy val)"

definition value_entropy :: "32 word \<Rightarrow> nat" where
  "value_entropy val =
     (if signed_entropy val > BITS_IN_INT div 2 then BITS_IN_INT - 1 else signed_entropy val)"

definition sign_switch :: "32 word \<Rightarrow> 32 word \<Rightarrow> bool" where
  "sign_switch val sv =
     ((val <s 0 \<and> sv = 0) \<or> (signed_entropy val > BITS_IN_INT div 2 \<and> sv = 0))"

text \<open>
  The repacking branch of \<open>insert\<close> (lines 79-94): a zeroed block of
  \<open>size / VALS_IN_INT(value_entropy) + 1\<close> words, filled by the loop over all \<open>size\<close>
  elements, read at the old width and sign convention and written at the new width.
\<close>

definition repack_loop :: "32 word list \<Rightarrow> nat \<Rightarrow> 32 word \<Rightarrow> nat \<Rightarrow> nat \<Rightarrow> 32 word list
    \<Rightarrow> 32 word list" where
  "repack_loop old ent sv ve n new_buffer =
     foldl (\<lambda>nb i. us_put nb i (us_get old i ent sv) ve) new_buffer [0..<n]"

definition repack :: "adaptiva \<Rightarrow> nat \<Rightarrow> bool \<Rightarrow> adaptiva" where
  "repack s ve sw =
     (let new_buffer_size = size_a s div VALS_IN_INT ve + 1;
          new_buffer = replicate new_buffer_size 0;
          new_buffer = repack_loop (buffer s) (entropy s) (signed_values s) ve (size_a s)
                         new_buffer
      in s\<lparr> buffer := new_buffer, allocated := 4 * new_buffer_size, entropy := ve,
             signed_values := (if sw then 1 else signed_values s) \<rparr>)"

text \<open>
  The growth branch (lines 98-106): a zeroed block of \<open>index / VALS_IN_INT(entropy) + 1\<close>
  words whose first \<open>allocated\<close> bytes are overwritten by \<open>memcpy\<close> with the old block.
\<close>

definition memcpy_words :: "32 word list \<Rightarrow> 32 word list \<Rightarrow> nat \<Rightarrow> 32 word list" where
  "memcpy_words dst src n = take n src @ drop n dst"

definition grow :: "adaptiva \<Rightarrow> nat \<Rightarrow> adaptiva" where
  "grow s index =
     (let new_size = index div VALS_IN_INT (entropy s) + 1;
          new_allocated = 4 * new_size;
          new_buffer = replicate new_size 0;
          new_buffer = memcpy_words new_buffer (buffer s) (allocated s div 4)
      in s\<lparr> buffer := new_buffer, allocated := new_allocated,
             size_a := new_size * VALS_IN_INT (entropy s) \<rparr>)"

text \<open>\<open>insert\<close> (lines 56-110).\<close>

definition insert_a :: "adaptiva \<Rightarrow> nat \<Rightarrow> 32 word \<Rightarrow> adaptiva" where
  "insert_a s index val =
     (let ve = value_entropy val;
          sw = sign_switch val (signed_values s);
          s = (if entropy s < ve \<or> sw then repack s ve sw else s);
          s = (if index \<ge> size_a s then grow s index else s)
      in s\<lparr> buffer := us_put (buffer s) index val (entropy s) \<rparr>)"

text \<open>\<open>get\<close> (lines 113-115).\<close>

definition get :: "adaptiva \<Rightarrow> nat \<Rightarrow> 32 word" where
  "get s index = us_get (buffer s) index (entropy s) (signed_values s)"

text \<open>
  \<open>find\<close> (lines 120-148). The result \<open>-1\<close> ("not found") is \<open>None\<close>, a found index \<open>i\<close>
  is \<open>Some i\<close>. \<open>~0\<close> is the \<open>int\<close> \<open>-1\<close>, so the shift that builds \<open>big_mask\<close> is the
  arithmetic one. The comparison of the inner loop is made on \<open>unsigned int\<close>, after the
  usual arithmetic conversions: it compares the 32 bits of the lane with the 32 bits of
  \<open>value\<close>.
\<close>

definition find_pattern :: "32 word \<Rightarrow> nat \<Rightarrow> nat \<Rightarrow> 32 word" where
  "find_pattern val ent viint =
     foldl (\<lambda>pattern i. pattern OR push_bit (ent * i) val) 0 [0..<viint]"

definition find_high_bit_mask :: "32 word \<Rightarrow> nat \<Rightarrow> nat \<Rightarrow> 32 word" where
  "find_high_bit_mask msk ent viint =
     foldl (\<lambda>h i. h OR push_bit (ent * i) (drop_bit 1 msk)) 0 [0..<viint]"

fun find_lane :: "32 word \<Rightarrow> nat \<Rightarrow> 32 word \<Rightarrow> 32 word \<Rightarrow> nat list \<Rightarrow> nat option" where
  "find_lane packed ent msk val [] = None"
| "find_lane packed ent msk val (j # js) =
     (if signed_drop_bit (ent * j) packed AND msk = val then Some j
      else find_lane packed ent msk val js)"

fun find_words :: "32 word list \<Rightarrow> nat \<Rightarrow> nat \<Rightarrow> 32 word \<Rightarrow> 32 word \<Rightarrow> 32 word \<Rightarrow> 32 word
    \<Rightarrow> 32 word \<Rightarrow> nat list \<Rightarrow> nat option" where
  "find_words buf ent viint msk pattern high_bit_mask big_mask val [] = None"
| "find_words buf ent viint msk pattern high_bit_mask big_mask val (i # is) =
     (let packed = buf ! i;
          match = packed XOR pattern;
          matches = NOT ((((match AND high_bit_mask) + high_bit_mask) OR match)
                      OR high_bit_mask);
          matches = matches AND big_mask
      in if matches \<noteq> 0
         then (case find_lane packed ent msk val [0..<viint] of
                 Some j \<Rightarrow> Some (i * viint + j)
               | None \<Rightarrow>
                   find_words buf ent viint msk pattern high_bit_mask big_mask val is)
         else find_words buf ent viint msk pattern high_bit_mask big_mask val is)"

definition find_a :: "adaptiva \<Rightarrow> 32 word \<Rightarrow> nat option" where
  "find_a s val =
     (let viint = VALS_IN_INT (entropy s);
          mask = push_bit (entropy s) 1 - 1;
          big_mask = signed_drop_bit (BITS_IN_INT - viint * entropy s) (NOT 0);
          pattern = find_pattern val (entropy s) viint;
          high_bit_mask = find_high_bit_mask mask (entropy s) viint;
          n = allocated s div 4
      in find_words (buffer s) (entropy s) viint mask pattern high_bit_mask big_mask val
           [0..<n])"

section \<open>Notions used by the properties\<close>

text \<open>A sequence of calls of \<open>insert\<close>, in the order of the list.\<close>

definition run :: "adaptiva \<Rightarrow> (nat \<times> 32 word) list \<Rightarrow> adaptiva" where
  "run s ops = foldl (\<lambda>s (i, v). insert_a s i v) s ops"

text \<open>
  The capacity inequality, and the well-formedness of a container: the width is between 1
  and 31, \<open>allocated\<close> is the byte size of the block, the block covers \<open>size\<close> lanes and
  has at most one word more than \<open>size\<close> lanes need (which is what makes the \<open>memcpy\<close>
  of the growth branch fit), and \<open>size\<close> and \<open>allocated\<close> are in the range of \<open>int\<close>.
\<close>

definition capacity_ok :: "adaptiva \<Rightarrow> bool" where
  "capacity_ok s \<longleftrightarrow> size_a s \<le> (allocated s div 4) * VALS_IN_INT (entropy s)"

definition int_range :: "adaptiva \<Rightarrow> bool" where
  "int_range s \<longleftrightarrow> size_a s \<le> 2 ^ 28 + 31 \<and> allocated s \<le> 4 * (2 ^ 28 + 32)"

definition well_formed :: "adaptiva \<Rightarrow> bool" where
  "well_formed s \<longleftrightarrow>
     1 \<le> entropy s \<and> entropy s \<le> BITS_IN_INT - 1 \<and>
     allocated s = 4 * length (buffer s) \<and>
     capacity_ok s \<and>
     length (buffer s) \<le> size_a s div VALS_IN_INT (entropy s) + 1 \<and>
     int_range s"

text \<open>
  The three \<open>int\<close> assignments of the growth branch as C evaluates them. \<open>index\<close> is a
  \<open>size_t\<close> (64 bits, unsigned). Line 98: the quotient and the sum are computed on
  \<open>size_t\<close> and converted to the \<open>int\<close> \<open>new_size\<close>. Line 99: \<open>sizeof(int) * new_size\<close> is
  computed on \<open>size_t\<close> and converted to the \<open>int\<close> \<open>new_allocated\<close>. Line 106: the product
  is computed on \<open>int\<close>. \<open>to_int\<close> is the conversion to \<open>int\<close>: it keeps the low 32 bits,
  read in two's complement (an \<open>int\<close> product that overflows wraps in the same way on the
  usual targets).
\<close>

definition to_int :: "int \<Rightarrow> int" where
  "to_int k = (k + 2 ^ 31) mod 2 ^ 32 - 2 ^ 31"

definition c_new_size :: "nat \<Rightarrow> nat \<Rightarrow> int" where
  "c_new_size index ent = to_int (int ((index div VALS_IN_INT ent + 1) mod 2 ^ 64))"

definition c_new_allocated :: "nat \<Rightarrow> nat \<Rightarrow> int" where
  "c_new_allocated index ent = to_int (4 * (c_new_size index ent mod 2 ^ 64) mod 2 ^ 64)"

definition c_size :: "nat \<Rightarrow> nat \<Rightarrow> int" where
  "c_size index ent = to_int (c_new_size index ent * int (VALS_IN_INT ent))"

text \<open>
  The magnitude of a C \<open>int\<close>, as the unsigned word that line 60 hands to
  \<open>__builtin_clz\<close> (before bit 0 is set): the least \<open>int\<close> has the magnitude \<open>2 ^ 31\<close>.
\<close>

definition magnitude :: "32 word \<Rightarrow> 32 word" where
  "magnitude v = (if v <s 0 then - v else v)"

text \<open>
  The shift counts of every shift operator the four functions execute, in program order:
  \<open>_get\<close> shifts at lines 34, 37 and 39, \<open>_put\<close> at lines 48, 50 and 51, \<open>insert\<close> at
  line 59, in the calls of its repacking loop (lines 86-87) and in its final call of
  \<open>_put\<close> (line 109), \<open>find\<close> at lines 122, 125, 128, twice at 129, and at 141.
\<close>

definition us_get_shifts :: "nat \<Rightarrow> nat \<Rightarrow> nat list" where
  "us_get_shifts index ent =
     (let off = index mod VALS_IN_INT ent in [ent, off * ent, ent - 1])"

definition us_put_shifts :: "nat \<Rightarrow> nat \<Rightarrow> nat list" where
  "us_put_shifts index ent =
     (let off = index mod VALS_IN_INT ent in [ent, ent * off, ent * off])"

definition insert_shifts :: "adaptiva \<Rightarrow> nat \<Rightarrow> 32 word \<Rightarrow> nat list" where
  "insert_shifts s index val =
     (let ve = value_entropy val;
          sw = sign_switch val (signed_values s);
          repacked = (entropy s < ve \<or> sw)
      in [BITS_IN_INT - 1] @
         (if repacked
          then concat (map (\<lambda>i. us_get_shifts i (entropy s) @ us_put_shifts i ve)
                 [0..<size_a s])
          else []) @
         us_put_shifts index (if repacked then ve else entropy s))"

definition find_shifts :: "adaptiva \<Rightarrow> nat list" where
  "find_shifts s =
     (let viint = VALS_IN_INT (entropy s)
      in [entropy s, BITS_IN_INT - viint * entropy s] @
         concat (map (\<lambda>i. [entropy s * i, 1, entropy s * i]) [0..<viint]) @
         map (\<lambda>j. entropy s * j) [0..<viint])"

text \<open>
  The lane of an index: the \<open>ent\<close> bits of its word that \<open>_get\<close> extracts, before the
  sign is restored.
\<close>

definition raw_lane :: "32 word list \<Rightarrow> nat \<Rightarrow> nat \<Rightarrow> 32 word" where
  "raw_lane buf index ent =
     take_bit ent (drop_bit ((index mod VALS_IN_INT ent) * ent)
       (buf ! (index div VALS_IN_INT ent)))"

text \<open>
  The containers that a run of insertions of values between 0 and \<open>2 ^ 30 - 1\<close> goes
  through: unsigned with a width of at most 16, or signed with the width 31.
\<close>

definition nonneg_state :: "adaptiva \<Rightarrow> bool" where
  "nonneg_state s \<longleftrightarrow>
     well_formed s \<and>
     (signed_values s = 0 \<and> entropy s \<le> 16 \<or> signed_values s = 1 \<and> entropy s = 31)"

section \<open>Widths, sizes and the shape of the block\<close>

lemma VALS_IN_INT_pos: "1 \<le> e \<Longrightarrow> e \<le> 32 \<Longrightarrow> 1 \<le> VALS_IN_INT e"
  by (simp add: VALS_IN_INT_def BITS_IN_INT_def Suc_le_eq div_greater_zero_iff)

lemma VALS_IN_INT_mult_le: "VALS_IN_INT e * e \<le> 32"
  by (simp add: VALS_IN_INT_def BITS_IN_INT_def)

lemma clz_from_le: "clz_from n w \<le> n"
  by (induction n) auto

lemma clz_from_bit: "bit w k \<Longrightarrow> k < n \<Longrightarrow> clz_from n w < n - k"
proof (induction n)
  case 0
  then show ?case by simp
next
  case (Suc n)
  then show ?case by (cases "k = n") (auto simp: less_Suc_eq Suc_diff_le)
qed

lemma clz_or_1: "clz (w OR 1) \<le> 31"
proof -
  have "bit (w OR 1) 0" by (simp add: bit_simps)
  from clz_from_bit [OF this, of 32] show ?thesis by (simp add: clz_def)
qed

lemma abs_entropy_bounds: "1 \<le> abs_entropy v \<and> abs_entropy v \<le> 32"
  using clz_or_1 [of "(v + signed_drop_bit 31 v) XOR signed_drop_bit 31 v"]
  by (simp add: abs_entropy_def BITS_IN_INT_def Let_def)

lemma value_entropy_bounds: "1 \<le> value_entropy v \<and> value_entropy v \<le> 31"
  using abs_entropy_bounds [of v]
  by (simp add: value_entropy_def signed_entropy_def BITS_IN_INT_def)

lemma length_us_put [simp]: "length (us_put buf i v e) = length buf"
  by (simp add: us_put_def Let_def)

lemma length_repack_loop [simp]: "length (repack_loop old e sv ve n nb) = length nb"
  by (induction n) (simp_all add: repack_loop_def)

lemma entropy_insert_a:
  "entropy (insert_a s i v) =
     (if entropy s < value_entropy v \<or> sign_switch v (signed_values s)
      then value_entropy v else entropy s)"
  by (simp add: insert_a_def Let_def repack_def grow_def)

lemma signed_values_insert_a:
  "signed_values (insert_a s i v) =
     (if sign_switch v (signed_values s) then 1 else signed_values s)"
  by (simp add: insert_a_def Let_def repack_def grow_def)

lemma size_a_insert_a:
  "size_a (insert_a s i v) =
     (if size_a s \<le> i
      then (i div VALS_IN_INT (entropy (insert_a s i v)) + 1) * VALS_IN_INT (entropy (insert_a s i v))
      else size_a s)"
  by (simp add: insert_a_def Let_def repack_def grow_def)

lemma less_div_succ_mult: "0 < k \<Longrightarrow> (n::nat) < (n div k + 1) * k"
  using dividend_less_div_times [of k n] by (simp add: algebra_simps)

lemma div_succ_mult_le: "0 < k \<Longrightarrow> (n div k + 1) * k \<le> n + (k::nat)"
  by (simp add: algebra_simps)

lemma well_formed_repack:
  assumes "well_formed s" "1 \<le> ve" "ve \<le> 31"
  shows "well_formed (repack s ve sw)"
proof -
  have k: "0 < VALS_IN_INT ve"
    using VALS_IN_INT_pos [of ve] assms by simp
  have "size_a s \<le> 2 ^ 28 + 31"
    using assms by (simp add: well_formed_def int_range_def)
  then have d: "size_a s div VALS_IN_INT ve \<le> 2 ^ 28 + 31"
    by (rule le_trans [OF div_le_dividend])
  have c: "size_a s \<le> (size_a s div VALS_IN_INT ve + 1) * VALS_IN_INT ve"
    using less_div_succ_mult [OF k, of "size_a s"] by (rule less_imp_le)
  from assms d c show ?thesis
    by (auto simp add: well_formed_def repack_def Let_def capacity_ok_def int_range_def
        BITS_IN_INT_def)
qed

lemma well_formed_grow:
  assumes "well_formed s" "size_a s \<le> i" "i < 2 ^ 28"
  shows "well_formed (grow s i)"
proof -
  let ?k = "VALS_IN_INT (entropy s)"
  have k: "0 < ?k" "?k \<le> 32"
    using VALS_IN_INT_pos [of "entropy s"] assms
    by (simp_all add: well_formed_def BITS_IN_INT_def VALS_IN_INT_def)
  have len: "length (buffer s) \<le> i div ?k + 1"
    using assms div_le_mono [OF assms(2), of ?k] by (simp add: well_formed_def)
  have a: "allocated s div 4 = length (buffer s)"
    using assms by (simp add: well_formed_def)
  have "(i div ?k + 1) * ?k \<le> i + ?k" using div_succ_mult_le [OF k(1)] .
  with assms(3) k(2) have sz: "(i div ?k + 1) * ?k \<le> 2 ^ 28 + 31" by linarith
  have d: "i div ?k < 2 ^ 28"
    using assms(3) by (rule le_less_trans [OF div_le_dividend])
  from assms k len a sz d show ?thesis
    by (auto simp add: well_formed_def grow_def Let_def capacity_ok_def int_range_def
        memcpy_words_def BITS_IN_INT_def)
qed

lemma well_formed_buffer_update:
  "well_formed s \<Longrightarrow> length b = length (buffer s) \<Longrightarrow> well_formed (s\<lparr> buffer := b \<rparr>)"
  by (auto simp add: well_formed_def capacity_ok_def int_range_def)


lemma well_formed_init: "well_formed (init w)"
  by (simp add: well_formed_def init_def capacity_ok_def int_range_def BITS_IN_INT_def
      VALS_IN_INT_def)

lemma well_formed_word_index:
  assumes "well_formed s" "i < size_a s"
  shows "i div VALS_IN_INT (entropy s) < length (buffer s)"
proof -
  let ?k = "VALS_IN_INT (entropy s)"
  have k: "0 < ?k"
    using VALS_IN_INT_pos [of "entropy s"] assms by (simp add: well_formed_def BITS_IN_INT_def)
  have "i < length (buffer s) * ?k"
    using assms by (auto simp add: well_formed_def capacity_ok_def)
  then show ?thesis using k by (simp add: less_mult_imp_div_less)
qed

lemma lane_in_word:
  assumes "1 \<le> e" "e \<le> 32" "off < VALS_IN_INT e"
  shows "off * e + e \<le> 32"
proof -
  have "(off + 1) * e \<le> VALS_IN_INT e * e"
    using assms(3) by (intro mult_le_mono1) simp
  also have "\<dots> \<le> 32" by (rule VALS_IN_INT_mult_le)
  finally show ?thesis by (simp add: algebra_simps)
qed

lemma lane_offset_in_word:
  assumes "1 \<le> e" "e \<le> 32"
  shows "(i mod VALS_IN_INT e) * e + e \<le> 32"
  using assms VALS_IN_INT_pos [OF assms] by (intro lane_in_word) simp_all

lemma us_get_shifts_safe:
  assumes "0 < e" "e \<le> 31"
  shows "\<forall>n \<in> set (us_get_shifts i e). n < 32"
  using assms lane_offset_in_word [of e i] by (auto simp add: us_get_shifts_def Let_def)

lemma us_put_shifts_safe:
  assumes "0 < e" "e \<le> 31"
  shows "\<forall>n \<in> set (us_put_shifts i e). n < 32"
  using assms lane_offset_in_word [of e i]
  by (auto simp add: us_put_shifts_def Let_def mult.commute)

lemma insert_shifts_safe:
  assumes "0 < entropy s" "entropy s \<le> 31"
  shows "\<forall>n \<in> set (insert_shifts s i v). n < 32"
proof -
  have ve: "0 < value_entropy v" "value_entropy v \<le> 31"
    using value_entropy_bounds [of v] by simp_all
  show ?thesis
    using us_get_shifts_safe [OF assms] us_put_shifts_safe [OF assms]
      us_put_shifts_safe [OF ve]
    by (auto simp add: insert_shifts_def Let_def BITS_IN_INT_def)
qed

lemma find_shifts_safe:
  assumes "0 < entropy s" "entropy s \<le> 31"
  shows "\<forall>n \<in> set (find_shifts s). n < 32"
proof -
  have k: "0 < VALS_IN_INT (entropy s)"
    using VALS_IN_INT_pos [of "entropy s"] assms by simp
  have "j * entropy s + entropy s \<le> 32" if "j < VALS_IN_INT (entropy s)" for j
    using that assms by (intro lane_in_word) simp_all
  then have "entropy s * j < 32" if "j < VALS_IN_INT (entropy s)" for j
    using that assms(1) by (fastforce simp add: mult.commute)
  moreover have "0 < VALS_IN_INT (entropy s) * entropy s"
    using k assms by simp
  ultimately show ?thesis
    using assms by (auto simp add: find_shifts_def Let_def BITS_IN_INT_def)
qed


section \<open>The width selection\<close>

lemma clz_from_zero_bits: "n - clz_from n w \<le> k \<Longrightarrow> k < n \<Longrightarrow> \<not> bit w k"
proof (induction n)
  case 0
  then show ?case by simp
next
  case (Suc n)
  then show ?case
    by (cases "k = n") (auto split: if_splits simp add: less_Suc_eq)
qed

lemma clz_from_top_bit: "clz_from n w < n \<Longrightarrow> bit w (n - Suc (clz_from n w))"
  by (induction n) (auto split: if_splits)

lemma unat_less_exp_iff:
  fixes w :: "32 word"
  shows "unat w < 2 ^ k \<longleftrightarrow> (\<forall>j\<ge>k. \<not> bit w j)"
proof -
  have "unat w < 2 ^ k \<longleftrightarrow> take_bit k (unat w) = unat w"
    by (simp add: take_bit_nat_eq_self_iff)
  also have "\<dots> \<longleftrightarrow> unat (take_bit k w) = unat w"
    by (simp add: unsigned_take_bit_eq)
  also have "\<dots> \<longleftrightarrow> take_bit k w = w"
    by (simp add: word_unat_eq_iff)
  also have "\<dots> \<longleftrightarrow> (\<forall>j\<ge>k. \<not> bit w j)"
  proof
    assume e: "take_bit k w = w"
    show "\<forall>j\<ge>k. \<not> bit w j"
    proof (intro allI impI)
      fix j
      assume "k \<le> j"
      then have "\<not> bit (take_bit k w) j" by (simp add: bit_take_bit_iff)
      with e show "\<not> bit w j" by simp
    qed
  next
    assume z: "\<forall>j\<ge>k. \<not> bit w j"
    have "bit (take_bit k w) n = bit w n" for n
      using z by (cases "n < k") (simp_all add: bit_take_bit_iff)
    then show "take_bit k w = w" by (simp add: bit_eq_iff)
  qed
  finally show ?thesis .
qed

lemma bit_length_le_iff:
  fixes w :: "32 word"
  assumes "bit w 0"
  shows "32 - clz w \<le> k \<longleftrightarrow> unat w < 2 ^ k"
proof -
  have c: "clz w < 32"
    using clz_from_bit [OF assms, of 32] by (simp add: clz_def)
  show ?thesis
  proof
    assume le: "32 - clz w \<le> k"
    have "\<not> bit w j" if "k \<le> j" for j
    proof (cases "j < 32")
      case True
      with le that show ?thesis
        by (intro clz_from_zero_bits [of 32 w j]) (simp_all add: clz_def)
    next
      case False
      then show ?thesis by (auto dest: bit_imp_le_length)
    qed
    then show "unat w < 2 ^ k" by (simp add: unat_less_exp_iff)
  next
    assume "unat w < 2 ^ k"
    then have z: "\<forall>j\<ge>k. \<not> bit w j" by (simp add: unat_less_exp_iff)
    have "bit w (32 - Suc (clz w))"
      using clz_from_top_bit [of 32 w] c by (simp add: clz_def)
    with z have "32 - Suc (clz w) < k" by (meson not_le)
    with c show "32 - clz w \<le> k" by simp
  qed
qed

lemma signed_drop_bit_31:
  fixes w :: "32 word"
  shows "signed_drop_bit 31 w = (if w <s 0 then - 1 else 0)"
  by (rule bit_word_eqI) (auto simp add: bit_signed_drop_bit_iff word_sless_alt bit_last_iff [where 'a=32, simplified, symmetric] not_le)

lemma abs_mask_trick:
  "(v + signed_drop_bit 31 v) XOR signed_drop_bit 31 v = magnitude v"
proof (cases "v <s 0")
  case True
  have "- v = NOT (v - 1)" by (rule minus_eq_not_minus_1)
  with True show ?thesis by (simp add: signed_drop_bit_31 magnitude_def)
next
  case False
  then show ?thesis by (simp add: signed_drop_bit_31 magnitude_def)
qed

lemma unat_or_1_less_iff:
  fixes w :: "32 word"
  assumes "0 < k"
  shows "unat (w OR 1) < 2 ^ k \<longleftrightarrow> unat w < 2 ^ k"
  using assms by (auto simp add: unat_less_exp_iff bit_simps)

lemma abs_entropy_le_iff:
  assumes "0 < k"
  shows "abs_entropy v \<le> k \<longleftrightarrow> unat (magnitude v) < 2 ^ k"
proof -
  have "bit (magnitude v OR 1) 0" by (simp add: bit_simps)
  from bit_length_le_iff [OF this, of k] assms show ?thesis
    by (simp add: abs_entropy_def BITS_IN_INT_def abs_mask_trick unat_or_1_less_iff)
qed

lemma sint_uint_32:
  fixes v :: "32 word"
  shows "sint v = (if v <s 0 then uint v - 2 ^ 32 else uint v)"
proof -
  have b: "bit (uint v) 31 \<longleftrightarrow> v <s 0"
    using bit_last_iff [of v] by (simp add: bit_uint_iff word_sless_alt)
  have t: "take_bit 32 (uint v) = uint v"
    using uint_lt2p [of v] by (simp add: take_bit_int_eq_self_iff)
  have "sint v = signed_take_bit 31 (uint v)" by (simp add: sint_uint)
  also have "\<dots> = take_bit 32 (uint v) - 2 ^ 32 * of_bool (bit (uint v) 31)"
    by (simp add: signed_take_bit_eq_take_bit_minus)
  finally show ?thesis by (simp add: b t)
qed

lemma uint_magnitude: "uint (magnitude v) = \<bar>sint v\<bar>"
proof (cases "v <s 0")
  case True
  then have s: "sint v = uint v - 2 ^ 32" by (simp add: sint_uint_32)
  from True have n: "sint v < 0" by (simp add: word_sless_alt)
  have u: "0 < uint v" "uint v < 2 ^ 32"
    using s sint_ge [of v] uint_lt2p [of v] by simp_all
  have "uint (- v) = (- uint v) mod 2 ^ 32"
    by (simp add: uint_word_ariths)
  also have "\<dots> = 2 ^ 32 - uint v"
    using u by (simp add: zmod_zminus1_eq_if)
  finally show ?thesis using True n s by (simp add: magnitude_def)
next
  case False
  then have "sint v = uint v" by (simp add: sint_uint_32)
  moreover have "0 \<le> uint v" by simp
  ultimately show ?thesis using False by (simp add: magnitude_def)
qed

lemma abs_entropy_le_iff_sint:
  assumes "0 < k"
  shows "abs_entropy v \<le> k \<longleftrightarrow> \<bar>sint v\<bar> < 2 ^ k"
proof -
  have "unat (magnitude v) < 2 ^ k \<longleftrightarrow> int (unat (magnitude v)) < int (2 ^ k)"
    by (simp only: of_nat_less_iff)
  then have "unat (magnitude v) < 2 ^ k \<longleftrightarrow> uint (magnitude v) < 2 ^ k"
    by simp
  then show ?thesis
    using assms by (simp add: abs_entropy_le_iff uint_magnitude)
qed


text \<open>
  C8, as amended: the width is capped to 31 exactly when the width counted with the sign
  bit of a negative value (the width of the magnitude, plus one when the value is negative)
  exceeds 16, which is the case exactly for the values from 65536 upwards and from
  \<open>-32768\<close> downwards; and a cap on an unsigned container sets \<open>sign_switch\<close>, whatever
  the sign of the value.
\<close>

theorem width_cap:
  "(value_entropy val = BITS_IN_INT - 1 \<longleftrightarrow>
      BITS_IN_INT div 2 < abs_entropy val + (if val <s 0 then 1 else 0)) \<and>
   (value_entropy val = BITS_IN_INT - 1 \<longleftrightarrow> 65536 \<le> sint val \<or> sint val \<le> - 32768) \<and>
   (value_entropy val = BITS_IN_INT - 1 \<and> sv = 0 \<longrightarrow> sign_switch val sv)"
proof -
  have c: "value_entropy val = 31 \<longleftrightarrow> 16 < signed_entropy val"
    by (simp add: value_entropy_def BITS_IN_INT_def)
  have s: "16 < signed_entropy val \<longleftrightarrow> 65536 \<le> sint val \<or> sint val \<le> - 32768"
  proof (cases "val <s 0")
    case True
    then have n: "sint val < 0" by (simp add: word_sless_alt)
    have "16 < signed_entropy val \<longleftrightarrow> \<not> abs_entropy val \<le> 15"
      using True by (auto simp add: signed_entropy_def)
    also have "\<dots> \<longleftrightarrow> \<not> \<bar>sint val\<bar> < 2 ^ 15"
      by (simp add: abs_entropy_le_iff_sint)
    finally show ?thesis using n by auto
  next
    case False
    then have n: "0 \<le> sint val" by (simp add: word_sless_alt)
    have "16 < signed_entropy val \<longleftrightarrow> \<not> abs_entropy val \<le> 16"
      using False by (auto simp add: signed_entropy_def)
    also have "\<dots> \<longleftrightarrow> \<not> \<bar>sint val\<bar> < 2 ^ 16"
      by (simp add: abs_entropy_le_iff_sint)
    finally show ?thesis using n by auto
  qed
  show ?thesis
    using c s by (auto simp add: BITS_IN_INT_def signed_entropy_def sign_switch_def)
qed


text \<open>
  The claim as stated fails at \<open>-32768\<close>: its magnitude has a width of 16 bits, which does
  not exceed half the word size, and its width is capped to 31 all the same.
\<close>

theorem width_cap_counterexample:
  "\<not> (value_entropy (- 32768) = BITS_IN_INT - 1 \<longleftrightarrow>
        BITS_IN_INT div 2 < abs_entropy (- 32768))"
  by code_simp

theorem width_cap_witness:
  "value_entropy 65536 = BITS_IN_INT - 1 \<and> (0 :: 32 word) = 0 \<and> sign_switch 65536 0"
  using width_cap [of 65536 0] by simp

section \<open>Entropy bounds and shift counts\<close>

text \<open>
  C9: the width is 1 after \<open>init\<close>; the width selection returns a width between 1 and 31
  for every value (so also for 0, \<open>-1\<close> and the least \<open>int\<close>); \<open>insert\<close> keeps the width
  between 1 and 31; and with a width in that range every shift count of \<open>get\<close>, \<open>put\<close>,
  \<open>insert\<close> and \<open>find\<close> is below 32, the subtraction that computes the shift count of
  line 125 having a non-negative result.
\<close>

theorem entropy_bounds_shift_safe:
  "entropy (init w) = 1 \<and>
   1 \<le> value_entropy val \<and> value_entropy val \<le> BITS_IN_INT - 1 \<and>
   (1 \<le> entropy s \<and> entropy s \<le> BITS_IN_INT - 1 \<longrightarrow>
      1 \<le> entropy (insert_a s index val) \<and>
      entropy (insert_a s index val) \<le> BITS_IN_INT - 1 \<and>
      VALS_IN_INT (entropy s) * entropy s \<le> BITS_IN_INT \<and>
      (\<forall>n \<in> set (us_get_shifts index (entropy s) @ us_put_shifts index (entropy s) @
                   insert_shifts s index val @ find_shifts s). n < BITS_IN_INT))"
proof -
  have "entropy (init w) = 1" by (simp add: init_def)
  moreover have "1 \<le> value_entropy val \<and> value_entropy val \<le> BITS_IN_INT - 1"
    using value_entropy_bounds [of val] by (simp add: BITS_IN_INT_def)
  moreover have "1 \<le> entropy (insert_a s index val) \<and>
      entropy (insert_a s index val) \<le> BITS_IN_INT - 1"
    if "1 \<le> entropy s \<and> entropy s \<le> BITS_IN_INT - 1"
    using that value_entropy_bounds [of val] by (simp add: entropy_insert_a BITS_IN_INT_def)
  moreover have "VALS_IN_INT (entropy s) * entropy s \<le> BITS_IN_INT"
    using VALS_IN_INT_mult_le by (simp add: BITS_IN_INT_def)
  moreover have "\<forall>n \<in> set (us_get_shifts index (entropy s) @ us_put_shifts index (entropy s) @
                   insert_shifts s index val @ find_shifts s). n < BITS_IN_INT"
    if "1 \<le> entropy s \<and> entropy s \<le> BITS_IN_INT - 1"
  proof -
    from that have e: "0 < entropy s" "entropy s \<le> 31" by (simp_all add: BITS_IN_INT_def)
    show ?thesis
      using us_get_shifts_safe [OF e, of index] us_put_shifts_safe [OF e, of index]
        insert_shifts_safe [OF e, of index val] find_shifts_safe [OF e]
      by (auto simp add: BITS_IN_INT_def)
  qed
  ultimately show ?thesis by blast
qed

theorem entropy_bounds_shift_safe_witness:
  "1 \<le> entropy (init 0) \<and> entropy (init 0) \<le> BITS_IN_INT - 1 \<and>
   1 \<le> entropy (insert_a (init 0) 5 (- 2147483648)) \<and>
   entropy (insert_a (init 0) 5 (- 2147483648)) \<le> BITS_IN_INT - 1 \<and>
   list_all (\<lambda>n. n < BITS_IN_INT)
     (us_get_shifts 5 (entropy (init 0)) @ us_put_shifts 5 (entropy (init 0)) @
      insert_shifts (init 0) 5 (- 2147483648) @ find_shifts (init 0))"
proof -
  have h: "1 \<le> entropy (init 0) \<and> entropy (init 0) \<le> BITS_IN_INT - 1"
    by (simp add: init_def BITS_IN_INT_def)
  show ?thesis
    unfolding list_all_iff
    using h entropy_bounds_shift_safe [of 0 "- 2147483648" "init 0" 5] by blast
qed

section \<open>The capacity invariant\<close>

lemma to_int_small: "0 \<le> k \<Longrightarrow> k < 2 ^ 31 \<Longrightarrow> to_int k = k"
  by (simp add: to_int_def)

lemma c_growth_agrees:
  assumes "0 < ent" "ent \<le> 32" "index < 2 ^ 28"
  shows "c_new_size index ent = int (index div VALS_IN_INT ent + 1) \<and>
    c_new_allocated index ent = int (4 * (index div VALS_IN_INT ent + 1)) \<and>
    c_size index ent = int ((index div VALS_IN_INT ent + 1) * VALS_IN_INT ent)"
proof -
  let ?k = "VALS_IN_INT ent" and ?n = "index div VALS_IN_INT ent + 1"
  have k: "0 < ?k" "?k \<le> 32"
    using VALS_IN_INT_pos [of ent] assms by (simp_all add: VALS_IN_INT_def BITS_IN_INT_def)
  have i: "index < 268435456" using assms(3) by simp
  have "index div ?k \<le> index" by simp
  with i have "?n \<le> 268435456" by linarith
  then have n: "?n \<le> 2 ^ 28" by simp
  have "?n * ?k \<le> index + ?k" using div_succ_mult_le [OF k(1)] .
  with i k(2) have "?n * ?k < 2147483648" by linarith
  then have sz: "?n * ?k < 2 ^ 31" by simp
  have m: "?n mod 2 ^ 64 = ?n" using n by simp
  have 1: "c_new_size index ent = int ?n"
    unfolding c_new_size_def m using n by (intro to_int_small) simp_all
  have "int ?n mod 2 ^ 64 = int ?n" using n by simp
  moreover have "4 * int ?n mod 2 ^ 64 = 4 * int ?n" using n by simp
  ultimately have 2: "c_new_allocated index ent = int (4 * ?n)"
    unfolding c_new_allocated_def 1 using n by (simp add: to_int_small)
  have "int (?n * ?k) < int (2 ^ 31)" using sz by (simp only: of_nat_less_iff)
  then have szi: "int (?n * ?k) < 2 ^ 31" by simp
  have "c_size index ent = to_int (int (?n * ?k))"
    unfolding c_size_def 1 by (simp only: of_nat_mult)
  also have "\<dots> = int (?n * ?k)"
    using szi by (intro to_int_small) simp_all
  finally have 3: "c_size index ent = int (?n * ?k)" .
  from 1 2 3 show ?thesis by blast
qed

lemma grow_int_exact:
  assumes "well_formed s" "index < 2 ^ 28"
  shows "c_new_allocated index (entropy s) = int (allocated (grow s index)) \<and>
    c_size index (entropy s) = int (size_a (grow s index))"
proof -
  have "0 < entropy s" "entropy s \<le> 32"
    using assms(1) by (simp_all add: well_formed_def BITS_IN_INT_def)
  from c_growth_agrees [OF this assms(2)] show ?thesis
    by (simp add: grow_def Let_def)
qed




section \<open>Lanes, repacking and the round trip of small non-negative values\<close>

lemma lane_mask: "push_bit e 1 - 1 = (mask e :: 32 word)"
  by (simp add: mask_eq_exp_minus_1)

lemma lanes_disjoint: "a < b \<Longrightarrow> a * e + e \<le> b * (e::nat)"
proof -
  assume "a < b"
  then have "Suc a * e \<le> b * e" by (intro mult_le_mono1) simp
  then show ?thesis by (simp add: add.commute)
qed

lemma get_word_lane:
  fixes w :: "32 word"
  assumes "m + e \<le> 32"
  shows "signed_drop_bit m w AND mask e = take_bit e (drop_bit m w)"
  by (rule bit_word_eqI) (use assms in \<open>auto simp add: bit_simps\<close>)

lemma us_get_raw_lane:
  assumes "0 < e" "e \<le> 31"
  shows "us_get buf i e sv = (raw_lane buf i e XOR push_bit (e - 1) sv) - push_bit (e - 1) sv"
proof -
  have "(i mod VALS_IN_INT e) * e + e \<le> 32"
    using assms by (intro lane_offset_in_word) simp_all
  then show ?thesis
    by (simp add: us_get_def raw_lane_def Let_def get_word_lane flip: mask_eq_exp_minus_1)
qed

lemma us_get_unsigned:
  assumes "0 < e" "e \<le> 31"
  shows "us_get buf i e 0 = raw_lane buf i e"
  by (simp add: us_get_raw_lane [OF assms])

lemma fits_bits:
  fixes v :: "32 word"
  shows "unat v < 2 ^ e \<Longrightarrow> bit v j \<Longrightarrow> j < e"
  by (meson unat_less_exp_iff not_le)

lemma put_word_same:
  fixes w v :: "32 word"
  assumes "unat v < 2 ^ e" "m + e \<le> 32"
  shows "take_bit e (drop_bit m ((w AND NOT (push_bit m (mask e))) OR push_bit m v)) = v"
proof (rule bit_word_eqI)
  fix n
  assume "n < LENGTH(32)"
  show "bit (take_bit e (drop_bit m ((w AND NOT (push_bit m (mask e))) OR push_bit m v))) n
    \<longleftrightarrow> bit v n"
  proof (cases "n < e")
    case True
    with assms(2) have "m + n < 32" by simp
    with True show ?thesis by (simp add: bit_simps)
  next
    case False
    with fits_bits [OF assms(1), of n] show ?thesis by (auto simp add: bit_simps)
  qed
qed

lemma put_word_other:
  fixes w v :: "32 word"
  assumes "unat v < 2 ^ e" "m + e \<le> m' \<or> m' + e \<le> m"
  shows "take_bit e (drop_bit m' ((w AND NOT (push_bit m (mask e))) OR push_bit m v))
    = take_bit e (drop_bit m' w)"
proof (rule bit_word_eqI)
  fix n
  assume "n < LENGTH(32)"
  show "bit (take_bit e (drop_bit m' ((w AND NOT (push_bit m (mask e))) OR push_bit m v))) n
    \<longleftrightarrow> bit (take_bit e (drop_bit m' w)) n"
  proof (cases "n < e")
    case True
    have v: "\<not> bit v (m' + n - m)" if "m \<le> m' + n"
    proof
      assume "bit v (m' + n - m)"
      then have "m' + n - m < e" by (rule fits_bits [OF assms(1)])
      with that True assms(2) show False by linarith
    qed
    have k: "\<not> (m \<le> m' + n \<and> m' + n - m < e)"
      using True assms(2) by linarith
    show ?thesis
      using True v k by (auto simp add: bit_simps dest: bit_imp_le_length)
  next
    case False
    then show ?thesis by (simp add: bit_simps)
  qed
qed

lemma unat_raw_lane: "unat (raw_lane buf i e) < 2 ^ e"
proof -
  have "\<not> bit (raw_lane buf i e) j" if "e \<le> j" for j
    using that by (simp add: raw_lane_def bit_simps)
  then show ?thesis by (simp add: unat_less_exp_iff)
qed

lemma us_put_word:
  "us_put buf i v e = buf[i div VALS_IN_INT e :=
     (buf ! (i div VALS_IN_INT e) AND NOT (push_bit ((i mod VALS_IN_INT e) * e) (mask e)))
       OR push_bit ((i mod VALS_IN_INT e) * e) v]"
  by (simp add: us_put_def Let_def mult.commute flip: mask_eq_exp_minus_1)

lemma raw_lane_put_same:
  assumes "0 < e" "e \<le> 31" "i div VALS_IN_INT e < length buf" "unat v < 2 ^ e"
  shows "raw_lane (us_put buf i v e) i e = v"
proof -
  let ?j = "i div VALS_IN_INT e" and ?m = "(i mod VALS_IN_INT e) * e"
  have m: "?m + e \<le> 32"
    using assms by (intro lane_offset_in_word) simp_all
  have "raw_lane (us_put buf i v e) i e
    = take_bit e (drop_bit ?m ((buf ! ?j AND NOT (push_bit ?m (mask e))) OR push_bit ?m v))"
    using assms(3) by (simp only: raw_lane_def us_put_word nth_list_update_eq)
  also have "\<dots> = v" using assms(4) m by (rule put_word_same)
  finally show ?thesis .
qed

lemma raw_lane_put_other:
  assumes "unat v < 2 ^ e" "k \<noteq> i"
  shows "raw_lane (us_put buf i v e) k e = raw_lane buf k e"
proof (cases "k div VALS_IN_INT e = i div VALS_IN_INT e \<and> i div VALS_IN_INT e < length buf")
  case True
  let ?j = "i div VALS_IN_INT e" and ?m = "(i mod VALS_IN_INT e) * e"
  let ?m' = "(k mod VALS_IN_INT e) * e"
  have "k mod VALS_IN_INT e \<noteq> i mod VALS_IN_INT e"
    using True assms(2) by (metis div_mult_mod_eq)
  then have "i mod VALS_IN_INT e < k mod VALS_IN_INT e \<or> k mod VALS_IN_INT e < i mod VALS_IN_INT e"
    by linarith
  then have d: "?m + e \<le> ?m' \<or> ?m' + e \<le> ?m"
    using lanes_disjoint by blast
  have "raw_lane (us_put buf i v e) k e
    = take_bit e (drop_bit ?m' ((buf ! ?j AND NOT (push_bit ?m (mask e))) OR push_bit ?m v))"
    using True by (simp only: raw_lane_def us_put_word nth_list_update_eq)
  also have "\<dots> = take_bit e (drop_bit ?m' (buf ! ?j))"
    using assms(1) d by (rule put_word_other)
  also have "\<dots> = raw_lane buf k e"
    using True by (simp only: raw_lane_def)
  finally show ?thesis .
next
  case False
  then have "(us_put buf i v e) ! (k div VALS_IN_INT e) = buf ! (k div VALS_IN_INT e)"
    by (auto simp add: us_put_word list_update_beyond not_less)
  then show ?thesis by (simp add: raw_lane_def)
qed

lemma us_get_put_other:
  assumes "0 < e" "e \<le> 31" "unat v < 2 ^ e" "k \<noteq> i"
  shows "us_get (us_put buf i v e) k e sv = us_get buf k e sv"
  using assms by (simp add: us_get_raw_lane raw_lane_put_other)

lemma small_xor_sign:
  fixes x :: "32 word"
  assumes "unat x < 2 ^ n"
  shows "(x XOR push_bit n 1) - push_bit n 1 = x"
proof -
  have "x AND push_bit n 1 = 0"
    by (rule bit_word_eqI) (use fits_bits [OF assms] in \<open>auto simp add: bit_simps\<close>)
  then have "x XOR push_bit n 1 = x + push_bit n 1"
    by (simp add: disjunctive_add_eq_xor)
  then show ?thesis by simp
qed

lemma us_get_signed_small:
  assumes "0 < e" "e \<le> 31" "unat (raw_lane buf i e) < 2 ^ (e - 1)"
  shows "us_get buf i e 1 = raw_lane buf i e"
  using assms(1,2) small_xor_sign [OF assms(3)] by (simp add: us_get_raw_lane)

lemma repack_loop_Suc:
  "repack_loop old e sv ve (Suc n) nb
    = us_put (repack_loop old e sv ve n nb) n (us_get old n e sv) ve"
  by (simp add: repack_loop_def)

lemma raw_lane_repack_loop:
  assumes "0 < ve" "ve \<le> 31"
    and "\<forall>i<n. unat (us_get old i e sv) < 2 ^ ve"
    and "n \<le> length nb * VALS_IN_INT ve" "i < n"
  shows "raw_lane (repack_loop old e sv ve n nb) i ve = us_get old i e sv"
  using assms(3-)
proof (induction n)
  case 0
  then show ?case by simp
next
  case (Suc n)
  have fit: "unat (us_get old n e sv) < 2 ^ ve" using Suc.prems(1) by simp
  show ?case
  proof (cases "i = n")
    case True
    have "n < length nb * VALS_IN_INT ve" using Suc.prems(2) by simp
    then have "n div VALS_IN_INT ve < length nb"
      by (simp add: less_mult_imp_div_less)
    with True fit assms(1,2) show ?thesis
      by (simp add: repack_loop_Suc raw_lane_put_same)
  next
    case False
    with Suc.prems have "i < n" by simp
    with Suc False fit show ?thesis
      by (simp add: repack_loop_Suc raw_lane_put_other)
  qed
qed

lemma unat_small:
  fixes v :: "32 word"
  assumes "v < 2 ^ 30"
  shows "unat v < 2 ^ 30"
  using assms by (simp add: word_less_nat_alt)

lemma small_not_negative:
  fixes v :: "32 word"
  assumes "v < 2 ^ 30"
  shows "\<not> v <s 0"
proof -
  have "unat v < 2 ^ 31"
    using unat_small [OF assms] by simp
  then have "\<forall>j\<ge>31. \<not> bit v j"
    by (simp only: unat_less_exp_iff)
  then have "\<not> bit v 31" by simp
  then show ?thesis
    using bit_last_iff [of v] by (simp add: word_sless_alt)
qed

lemma small_fits_abs_entropy:
  assumes "v < 2 ^ 30"
  shows "unat v < 2 ^ abs_entropy v"
proof -
  have "magnitude v = v"
    using small_not_negative [OF assms] by (simp add: magnitude_def)
  moreover have "0 < abs_entropy v" using abs_entropy_bounds [of v] by simp
  ultimately show ?thesis
    using abs_entropy_le_iff [of "abs_entropy v" v] by simp
qed

lemma small_value_entropy:
  assumes "v < 2 ^ 30"
  shows "value_entropy v = (if 16 < abs_entropy v then 31 else abs_entropy v)"
  using small_not_negative [OF assms]
  by (simp add: value_entropy_def signed_entropy_def BITS_IN_INT_def)

lemma small_sign_switch:
  assumes "v < 2 ^ 30"
  shows "sign_switch v sv \<longleftrightarrow> 16 < abs_entropy v \<and> sv = 0"
  using small_not_negative [OF assms]
  by (simp add: sign_switch_def signed_entropy_def BITS_IN_INT_def)

lemma small_fits_value_entropy:
  assumes "v < 2 ^ 30"
  shows "unat v < 2 ^ value_entropy v"
proof (cases "16 < abs_entropy v")
  case True
  have "unat v < 2 ^ 30" using assms by (rule unat_small)
  also have "\<dots> < (2 :: nat) ^ 31" by simp
  finally show ?thesis using True by (simp add: small_value_entropy [OF assms])
next
  case False
  then show ?thesis
    using small_fits_abs_entropy [OF assms] by (simp add: small_value_entropy [OF assms])
qed

lemma us_get_cong_word:
  "buf ! (k div VALS_IN_INT e) = buf' ! (k div VALS_IN_INT e)
    \<Longrightarrow> us_get buf k e sv = us_get buf' k e sv"
  by (simp add: us_get_def Let_def)

lemma buffer_repack:
  "buffer (repack s ve sw) = repack_loop (buffer s) (entropy s) (signed_values s) ve (size_a s)
     (replicate (size_a s div VALS_IN_INT ve + 1) 0)"
  by (simp add: repack_def Let_def)

lemma entropy_repack: "entropy (repack s ve sw) = ve"
  by (simp add: repack_def Let_def)

lemma signed_values_repack:
  "signed_values (repack s ve sw) = (if sw then 1 else signed_values s)"
  by (simp add: repack_def Let_def)

lemma size_a_repack: "size_a (repack s ve sw) = size_a s"
  by (simp add: repack_def Let_def)

lemma get_repack_unsigned:
  assumes wf: "well_formed s" and u: "signed_values s = 0"
    and ve: "0 < ve" "ve \<le> 31" "entropy s \<le> ve" and sw: "sw \<Longrightarrow> entropy s < ve"
    and k: "k < size_a s"
  shows "get (repack s ve sw) k = get s k"
proof -
  let ?e = "entropy s" and ?old = "buffer s"
  let ?nb = "replicate (size_a s div VALS_IN_INT ve + 1) (0 :: 32 word)"
  let ?new = "repack_loop ?old ?e 0 ve (size_a s) ?nb"
  have e: "0 < ?e" "?e \<le> 31"
    using wf by (simp_all add: well_formed_def BITS_IN_INT_def)
  have old: "us_get ?old i ?e 0 = raw_lane ?old i ?e" for i
    using e by (rule us_get_unsigned)
  have p: "(2 :: nat) ^ ?e \<le> 2 ^ ve" using ve(3) by simp
  have "unat (us_get ?old i ?e 0) < 2 ^ ve" for i
    unfolding old using unat_raw_lane [of ?old i ?e] p by (rule less_le_trans)
  then have fit: "\<forall>i < size_a s. unat (us_get ?old i ?e 0) < 2 ^ ve"
    by blast
  have "0 < VALS_IN_INT ve" using VALS_IN_INT_pos [of ve] ve by simp
  then have "size_a s < (size_a s div VALS_IN_INT ve + 1) * VALS_IN_INT ve"
    by (rule less_div_succ_mult)
  then have cap: "size_a s \<le> length ?nb * VALS_IN_INT ve"
    by simp
  have raw: "raw_lane ?new k ve = raw_lane ?old k ?e"
    unfolding old [symmetric] using ve(1,2) fit cap k by (rule raw_lane_repack_loop)
  have g: "get (repack s ve sw) k = us_get ?new k ve (if sw then 1 else 0)"
    unfolding get_def buffer_repack entropy_repack signed_values_repack u ..
  have g0: "get s k = raw_lane ?old k ?e"
    unfolding get_def u old ..
  show ?thesis
  proof (cases sw)
    case True
    then have "(2 :: nat) ^ ?e \<le> 2 ^ (ve - 1)" using sw by simp
    with unat_raw_lane [of ?old k ?e] have "unat (raw_lane ?new k ve) < 2 ^ (ve - 1)"
      unfolding raw by (rule less_le_trans)
    with ve(1,2) have "us_get ?new k ve 1 = raw_lane ?new k ve"
      by (rule us_get_signed_small)
    with True show ?thesis unfolding g g0 raw by simp
  next
    case False
    have "us_get ?new k ve 0 = raw_lane ?new k ve"
      using ve(1,2) by (rule us_get_unsigned)
    with False show ?thesis unfolding g g0 raw by simp
  qed
qed

lemma entropy_grow: "entropy (grow s i) = entropy s"
  by (simp add: grow_def Let_def)

lemma signed_values_grow: "signed_values (grow s i) = signed_values s"
  by (simp add: grow_def Let_def)

lemma size_a_grow:
  "size_a (grow s i) = (i div VALS_IN_INT (entropy s) + 1) * VALS_IN_INT (entropy s)"
  by (simp add: grow_def Let_def)

lemma buffer_grow:
  "buffer (grow s i) = take (allocated s div 4) (buffer s) @
     replicate (Suc (i div VALS_IN_INT (entropy s)) - allocated s div 4) 0"
  by (simp add: grow_def Let_def memcpy_words_def del: replicate_Suc flip: replicate_Suc)

lemma get_grow:
  assumes "well_formed s" "k < size_a s"
  shows "get (grow s i) k = get s k"
proof -
  have j: "k div VALS_IN_INT (entropy s) < length (buffer s)"
    using assms by (rule well_formed_word_index)
  have a: "allocated s div 4 = length (buffer s)"
    using assms(1) by (simp add: well_formed_def)
  have "buffer (grow s i) ! (k div VALS_IN_INT (entropy s))
      = buffer s ! (k div VALS_IN_INT (entropy s))"
    unfolding buffer_grow a using j by (simp add: nth_append)
  then show ?thesis
    unfolding get_def entropy_grow signed_values_grow by (rule us_get_cong_word)
qed

lemma nonneg_state_repack_step:
  assumes n: "nonneg_state s" and v: "v < 2 ^ 30"
  defines "s1 \<equiv> (if entropy s < value_entropy v \<or> sign_switch v (signed_values s)
      then repack s (value_entropy v) (sign_switch v (signed_values s)) else s)"
  shows "nonneg_state s1 \<and> unat v < 2 ^ entropy s1 \<and> size_a s1 = size_a s \<and>
    (\<forall>k. k < size_a s \<longrightarrow> get s1 k = get s k)"
proof -
  let ?ve = "value_entropy v" and ?sw = "sign_switch v (signed_values s)"
  have wf: "well_formed s" using n by (simp add: nonneg_state_def)
  have ve: "0 < ?ve" "?ve \<le> 31" using value_entropy_bounds [of v] by simp_all
  have fit: "unat v < 2 ^ ?ve" using v by (rule small_fits_value_entropy)
  have sw: "?sw \<longleftrightarrow> 16 < abs_entropy v \<and> signed_values s = 0"
    using v by (rule small_sign_switch)
  have vee: "?ve = (if 16 < abs_entropy v then 31 else abs_entropy v)"
    using v by (rule small_value_entropy)
  show ?thesis
  proof (cases "entropy s < ?ve \<or> ?sw")
    case False
    then have s1: "s1 = s" by (simp add: s1_def)
    from False have "?ve \<le> entropy s" by simp
    then have "(2 :: nat) ^ ?ve \<le> 2 ^ entropy s" by simp
    with fit have "unat v < 2 ^ entropy s" by (rule less_le_trans)
    with n show ?thesis by (simp add: s1)
  next
    case True
    then have s1: "s1 = repack s ?ve ?sw" by (simp add: s1_def)
    have u: "signed_values s = 0 \<and> entropy s \<le> 16"
    proof (rule ccontr)
      assume "\<not> ?thesis"
      with n have "signed_values s = 1 \<and> entropy s = 31" by (auto simp add: nonneg_state_def)
      with True ve sw show False by simp
    qed
    have le: "entropy s \<le> ?ve"
      using True u sw vee by (auto split: if_splits)
    have lt: "entropy s < ?ve" if "?sw"
      using that u sw vee by (auto split: if_splits)
    have wf1: "well_formed s1"
      unfolding s1 using wf ve by (intro well_formed_repack) simp_all
    have mode: "signed_values s1 = 0 \<and> entropy s1 \<le> 16 \<or> signed_values s1 = 1 \<and> entropy s1 = 31"
      unfolding s1 entropy_repack signed_values_repack using u sw vee
      by (auto split: if_splits)
    have g: "get s1 k = get s k" if "k < size_a s" for k
      unfolding s1 using wf u [THEN conjunct1] ve le lt that by (rule get_repack_unsigned)
    from wf1 mode fit g show ?thesis
      by (simp add: nonneg_state_def) (simp add: s1 entropy_repack size_a_repack)
  qed
qed

lemma nonneg_state_grow_step:
  assumes n: "nonneg_state s" and i: "i < 2 ^ 28"
  defines "s2 \<equiv> (if size_a s \<le> i then grow s i else s)"
  shows "nonneg_state s2 \<and> entropy s2 = entropy s \<and> size_a s \<le> size_a s2 \<and> i < size_a s2 \<and>
    (\<forall>k. k < size_a s \<longrightarrow> get s2 k = get s k)"
proof (cases "size_a s \<le> i")
  case False
  with n show ?thesis by (simp add: s2_def)
next
  case True
  then have s2: "s2 = grow s i" by (simp add: s2_def)
  have wf: "well_formed s" using n by (simp add: nonneg_state_def)
  have "0 < VALS_IN_INT (entropy s)"
    using VALS_IN_INT_pos [of "entropy s"] wf by (simp add: well_formed_def BITS_IN_INT_def)
  then have lt: "i < size_a (grow s i)"
    unfolding size_a_grow by (rule less_div_succ_mult)
  have "well_formed (grow s i)" using wf True i by (rule well_formed_grow)
  then have "nonneg_state (grow s i)"
    using n by (simp add: nonneg_state_def entropy_grow signed_values_grow)
  moreover have "get (grow s i) k = get s k" if "k < size_a s" for k
    using wf that by (rule get_grow)
  ultimately show ?thesis
    using lt True by (simp add: s2 entropy_grow)
qed

lemma nonneg_state_put_step:
  assumes n: "nonneg_state s" and i: "i < size_a s" and v: "v < 2 ^ 30"
    and fit: "unat v < 2 ^ entropy s"
  defines "s3 \<equiv> s\<lparr> buffer := us_put (buffer s) i v (entropy s) \<rparr>"
  shows "nonneg_state s3 \<and> size_a s3 = size_a s \<and> get s3 i = v \<and>
    (\<forall>k. k \<noteq> i \<longrightarrow> get s3 k = get s k)"
proof -
  have wf: "well_formed s" using n by (simp add: nonneg_state_def)
  have e: "0 < entropy s" "entropy s \<le> 31"
    using wf by (simp_all add: well_formed_def BITS_IN_INT_def)
  have j: "i div VALS_IN_INT (entropy s) < length (buffer s)"
    using wf i by (rule well_formed_word_index)
  have raw: "raw_lane (us_put (buffer s) i v (entropy s)) i (entropy s) = v"
    using e j fit by (rule raw_lane_put_same)
  have "well_formed s3"
    unfolding s3_def using wf by (rule well_formed_buffer_update) simp
  then have n3: "nonneg_state s3"
    using n by (simp add: nonneg_state_def) (simp add: s3_def)
  have same: "get s3 i = v"
  proof (cases "signed_values s = 0")
    case True
    then show ?thesis
      using raw e by (simp add: get_def s3_def us_get_unsigned)
  next
    case False
    with n have m: "signed_values s = 1" "entropy s = 31"
      by (auto simp add: nonneg_state_def)
    have "unat v < 2 ^ 30" using v by (rule unat_small)
    then have "unat (raw_lane (us_put (buffer s) i v (entropy s)) i (entropy s))
        < 2 ^ (entropy s - 1)"
      unfolding raw by (simp add: m)
    with e have "us_get (us_put (buffer s) i v (entropy s)) i (entropy s) 1
        = raw_lane (us_put (buffer s) i v (entropy s)) i (entropy s)"
      by (rule us_get_signed_small)
    then show ?thesis
      unfolding raw by (simp add: get_def s3_def m)
  qed
  have other: "get s3 k = get s k" if "k \<noteq> i" for k
    using us_get_put_other [OF e fit that] by (simp add: get_def s3_def)
  from n3 same other show ?thesis by (simp add: s3_def)
qed

lemma nonneg_state_insert_a:
  assumes n: "nonneg_state s" and i: "i < 2 ^ 28" and v: "v < 2 ^ 30"
  shows "nonneg_state (insert_a s i v) \<and> size_a s \<le> size_a (insert_a s i v) \<and>
    i < size_a (insert_a s i v) \<and> get (insert_a s i v) i = v \<and>
    (\<forall>k. k < size_a s \<and> k \<noteq> i \<longrightarrow> get (insert_a s i v) k = get s k)"
proof -
  define s1 where "s1 = (if entropy s < value_entropy v \<or> sign_switch v (signed_values s)
      then repack s (value_entropy v) (sign_switch v (signed_values s)) else s)"
  define s2 where "s2 = (if size_a s1 \<le> i then grow s1 i else s1)"
  define s3 where "s3 = s2\<lparr> buffer := us_put (buffer s2) i v (entropy s2) \<rparr>"
  have ins: "insert_a s i v = s3"
    by (simp add: insert_a_def Let_def s1_def s2_def s3_def)
  have 1: "nonneg_state s1 \<and> unat v < 2 ^ entropy s1 \<and> size_a s1 = size_a s \<and>
      (\<forall>k. k < size_a s \<longrightarrow> get s1 k = get s k)"
    unfolding s1_def using n v by (rule nonneg_state_repack_step)
  then have n1: "nonneg_state s1" by simp
  have 2: "nonneg_state s2 \<and> entropy s2 = entropy s1 \<and> size_a s1 \<le> size_a s2 \<and>
      i < size_a s2 \<and> (\<forall>k. k < size_a s1 \<longrightarrow> get s2 k = get s1 k)"
    unfolding s2_def using n1 i by (rule nonneg_state_grow_step)
  then have n2: "nonneg_state s2" and i2: "i < size_a s2"
    and fit2: "unat v < 2 ^ entropy s2"
    using 1 by simp_all
  have 3: "nonneg_state s3 \<and> size_a s3 = size_a s2 \<and> get s3 i = v \<and>
      (\<forall>k. k \<noteq> i \<longrightarrow> get s3 k = get s2 k)"
    unfolding s3_def using n2 i2 v fit2 by (rule nonneg_state_put_step)
  from 1 2 3 show ?thesis unfolding ins by simp
qed

lemma nonneg_state_init: "nonneg_state (init w)"
  using well_formed_init [of w] by (simp add: nonneg_state_def) (simp add: init_def)

lemma run_Nil: "run s [] = s"
  by (simp add: run_def)

lemma run_Cons: "run s ((i, v) # ops) = run (insert_a s i v) ops"
  by (simp add: run_def)

lemma run_append: "run s (xs @ ys) = run (run s xs) ys"
  by (simp add: run_def)

lemma nonneg_state_run:
  assumes "nonneg_state s" "\<forall>(i, v) \<in> set ops. i < 2 ^ 28 \<and> v < 2 ^ 30"
  shows "nonneg_state (run s ops) \<and> size_a s \<le> size_a (run s ops) \<and>
    (\<forall>k. k < size_a s \<and> k \<notin> fst ` set ops \<longrightarrow> get (run s ops) k = get s k)"
  using assms
proof (induction ops arbitrary: s)
  case Nil
  then show ?case by (simp add: run_Nil)
next
  case (Cons x ops)
  obtain i v where x: "x = (i, v)" by (cases x)
  from Cons.prems x have iv: "i < 2 ^ 28" "v < 2 ^ 30"
    and rest: "\<forall>(i, v) \<in> set ops. i < 2 ^ 28 \<and> v < 2 ^ 30"
    by simp_all
  let ?s = "insert_a s i v"
  have st: "nonneg_state ?s \<and> size_a s \<le> size_a ?s \<and>
      i < size_a ?s \<and> get ?s i = v \<and>
      (\<forall>k. k < size_a s \<and> k \<noteq> i \<longrightarrow> get ?s k = get s k)"
    using Cons.prems(1) iv by (rule nonneg_state_insert_a)
  then have n: "nonneg_state ?s" by simp
  have ih: "nonneg_state (run ?s ops) \<and> size_a ?s \<le> size_a (run ?s ops) \<and>
      (\<forall>k. k < size_a ?s \<and> k \<notin> fst ` set ops \<longrightarrow> get (run ?s ops) k = get ?s k)"
    using n rest by (rule Cons.IH)
  have "get (run ?s ops) k = get s k"
    if "k < size_a s" "k \<notin> fst ` set (x # ops)" for k
  proof -
    from that x have "k \<noteq> i" "k \<notin> fst ` set ops" by auto
    moreover from that st have "k < size_a ?s" by simp
    ultimately show ?thesis using ih st that(1) by simp
  qed
  with ih st show ?case unfolding x run_Cons by auto
qed


text \<open>
  C1, as amended: after any sequence of insertions of values between 0 and \<open>2 ^ 30 - 1\<close>
  (at indices below \<open>2 ^ 28\<close>), in any order, on a container that \<open>init\<close> has just
  returned, \<open>get\<close> returns at every inserted index the value of the last insertion at
  that index.
\<close>

theorem round_trip:
  assumes "\<forall>(i, v) \<in> set ops. i < 2 ^ 28 \<and> v < 2 ^ 30"
    and "ops = pre @ (i, v) # post"
    and "i \<notin> fst ` set post"
  shows "get (run (init w) ops) i = v"
proof -
  from assms(1,2) have pre: "\<forall>(i, v) \<in> set pre. i < 2 ^ 28 \<and> v < 2 ^ 30"
    and iv: "i < 2 ^ 28" "v < 2 ^ 30"
    and post: "\<forall>(i, v) \<in> set post. i < 2 ^ 28 \<and> v < 2 ^ 30"
    by auto
  let ?s = "run (init w) pre"
  have "nonneg_state ?s"
    using nonneg_state_run [OF nonneg_state_init pre] by simp
  then have st: "nonneg_state (insert_a ?s i v) \<and> size_a ?s \<le> size_a (insert_a ?s i v) \<and>
      i < size_a (insert_a ?s i v) \<and> get (insert_a ?s i v) i = v \<and>
      (\<forall>k. k < size_a ?s \<and> k \<noteq> i \<longrightarrow> get (insert_a ?s i v) k = get ?s k)"
    using iv by (rule nonneg_state_insert_a)
  then have "nonneg_state (insert_a ?s i v)" by simp
  from nonneg_state_run [OF this post] st assms(3)
  have "get (run (insert_a ?s i v) post) i = v" by simp
  then show ?thesis
    unfolding assms(2) run_append run_Cons .
qed

text \<open>
  The claim as stated fails already for one insertion: the width is capped at 31 bits and
  the container is then signed, so \<open>2 ^ 30\<close> is stored with the sign bit of its lane set
  and read back as \<open>- (2 ^ 30)\<close>.
\<close>

theorem round_trip_counterexample:
  "get (run (init 0) [(0, 1073741824)]) 0 \<noteq> 1073741824"
  unfolding run_def by code_simp

theorem round_trip_witness:
  "get (run (init 3735928559) [(40, 70000), (3, 5), (0, 1), (41, 1000)]) 3 = 5"
proof -
  have h1: "\<forall>(i, v) \<in> set [(40 :: nat, 70000 :: 32 word), (3, 5), (0, 1), (41, 1000)].
      i < 2 ^ 28 \<and> v < 2 ^ 30"
    by simp
  have h2: "[(40 :: nat, 70000 :: 32 word), (3, 5), (0, 1), (41, 1000)]
      = [(40, 70000)] @ (3, 5) # [(0, 1), (41, 1000)]"
    by simp
  have h3: "(3 :: nat) \<notin> fst ` set [(0 :: nat, 1 :: 32 word), (41, 1000)]"
    by simp
  show ?thesis
    using h1 h2 h3 by (rule round_trip)
qed

section \<open>Concrete runs\<close>

lemma run_100: "insert_a (init 0) 0 100 =
    \<lparr> entropy = 7, buffer = [100, 0, 0, 0, 0, 0, 0, 0, 0], size_a = 32, allocated = 36,
      signed_values = 0 \<rparr>"
  by code_simp

lemma run_100_minus_1:
  "insert_a \<lparr> entropy = 7, buffer = [100, 0, 0, 0, 0, 0, 0, 0, 0], size_a = 32,
       allocated = 36, signed_values = 0 \<rparr> 1 (- 1) =
    \<lparr> entropy = 2, buffer = [- 4, 0, 0], size_a = 32, allocated = 12, signed_values = 1 \<rparr>"
  by code_simp

lemma run_minus_1: "insert_a (init 0) 0 (- 1) =
    \<lparr> entropy = 2, buffer = [- 1, 0, 0], size_a = 32, allocated = 12, signed_values = 1 \<rparr>"
  by code_simp

lemma run_ones: "foldl (\<lambda>s i. insert_a s i 1) (init 0) [0..<32] =
    \<lparr> entropy = 1, buffer = [- 1], size_a = 32, allocated = 4, signed_values = 0 \<rparr>"
  by code_simp

lemma run_ones_2:
  "insert_a \<lparr> entropy = 1, buffer = [- 1], size_a = 32, allocated = 4, signed_values = 0 \<rparr>
     0 2 =
    \<lparr> entropy = 2, buffer = [1431655766, 1431655765, 0], size_a = 32, allocated = 12,
      signed_values = 0 \<rparr>"
  by code_simp

text \<open>
  C2 (repack fidelity), at the run \<open>insert(0, 100); insert(1, -1)\<close>: the second insertion
  repacks, because \<open>-1\<close> forces signed mode, and afterwards element 0 no longer reads 100 but
  0, the two low bits of 100.
\<close>

theorem repack_truncates:
  "get (insert_a (init 0) 0 100) 0 = 100 \<and>
   get (insert_a (insert_a (init 0) 0 100) 1 (- 1)) 0 = 0"
  unfolding run_100 run_100_minus_1 by code_simp

text \<open>
  C3 (monotonic entropy), at the same run: the width is 7 after \<open>insert(0, 100)\<close> and 2
  after \<open>insert(1, -1)\<close>.
\<close>

theorem entropy_decreases:
  "entropy (insert_a (init 0) 0 100) = 7 \<and>
   entropy (insert_a (insert_a (init 0) 0 100) 1 (- 1)) = 2"
  unfolding run_100 run_100_minus_1 by simp

text \<open>
  C4 (find correctness), at the run \<open>insert(0, -1)\<close>: element 0 reads \<open>-1\<close>, and
  \<open>find(-1)\<close> answers "not found".
\<close>

theorem find_misses_negative:
  "get (insert_a (init 0) 0 (- 1)) 0 = - 1 \<and>
   find_a (insert_a (init 0) 0 (- 1)) (- 1) = None"
  unfolding run_minus_1 by code_simp

text \<open>
  C5 (find restricted to the logical size), at the run \<open>insert(i, 1)\<close> for \<open>i\<close> from 0 to
  31, then \<open>insert(0, 2)\<close>: the container has 32 elements, none of them 0, in a block of
  three words, and \<open>find(0)\<close> answers 32, a lane of the third word.
\<close>

theorem find_beyond_size:
  "size_a (insert_a (foldl (\<lambda>s i. insert_a s i 1) (init 0) [0..<32]) 0 2) = 32 \<and>
   list_all (\<lambda>i. get (insert_a (foldl (\<lambda>s i. insert_a s i 1) (init 0) [0..<32]) 0 2) i \<noteq> 0)
     [0..<32] \<and>
   find_a (insert_a (foldl (\<lambda>s i. insert_a s i 1) (init 0) [0..<32]) 0 2) 0 = Some 32"
  unfolding run_ones run_ones_2 by code_simp

text \<open>
  C6 (lane isolation of put), at a word whose lane 1 of width 2 holds 1: writing \<open>-1\<close> to
  lane 0 sets every bit of the word, and lane 1 then holds 3.
\<close>

theorem put_spills:
  "us_get [4] 1 2 0 = 1 \<and> us_put [4] 0 (- 1) 2 = [- 1] \<and>
   us_get (us_put [4] 0 (- 1) 2) 1 2 0 = 3"
  by code_simp

text \<open>
  C7 (initial state): the three scalars are as the claim says, and the word of storage is
  the one the allocator returned; where its bit 0 is set, element 0 reads 1.
\<close>

theorem init_not_zeroed:
  "entropy (init 1) = 1 \<and> signed_values (init 1) = 0 \<and> size_a (init 1) = BITS_IN_INT \<and>
   buffer (init 1) = [1] \<and> get (init 1) 0 = 1"
  by code_simp

end
